theory Spec2Isabelle
  imports
    Main
    "HOL-Library.AList"
    "HOL-Library.Char_ord"
    "HOL-Library.List_Lexorder"
    "HOL-Library.Product_Lexorder"
    "HOL-Library.Multiset"
begin

section \<open>session\_count.py: data model\<close>

text \<open>
  A naive \<^verbatim>\<open>datetime\<close> is the tuple of its fields (year, month, day, hour, minute,
  second, microsecond). Python compares two naive datetimes field by field in that
  order, which is the lexicographic order of the product. Timezone-aware values are
  outside this model: the parser handed to \<open>get_event_list\<close> returns naive values.
\<close>

type_synonym datetime = "nat \<times> nat \<times> nat \<times> nat \<times> nat \<times> nat \<times> nat"

definition year :: "datetime \<Rightarrow> nat" where
  "year dt = fst dt"

text \<open>
  An event is the tuple \<^verbatim>\<open>(timestamp, delta, user_name)\<close> appended in
  \<^verbatim>\<open>get_event_list\<close>. Python compares tuples lexicographically, and strings by
  code point, character by character, a proper prefix being smaller.
\<close>

type_synonym event = "datetime \<times> int \<times> string"

datatype py_error = KeyError | ValueError | IndexError

definition CSV_HEADERS :: "string list" where
  "CSV_HEADERS = [''start_timestamp'', ''end_timestamp'', ''user_id'', ''environment_id'', ''object_id'']"

section \<open>get\_event\_list\<close>

text \<open>\<^verbatim>\<open>s.split('+')[0]\<close>: the text before the first plus sign, all of it when there is none.\<close>

definition split_plus :: "string \<Rightarrow> string" where
  "split_plus s = takeWhile (\<lambda>c. c \<noteq> CHR ''+'') s"

text \<open>
  The body of the \<^verbatim>\<open>for row_list in session_reader\<close> loop, returning the events
  the row appends. \<open>fromisoformat\<close> stands for \<^verbatim>\<open>datetime.fromisoformat\<close>, with
  \<open>None\<close> for its ValueError. A missing dictionary key is a KeyError. The checks are
  in the order of the source: start timestamp looked up and parsed, end timestamp
  looked up and parsed, the year filter, then the user id.
\<close>

definition row_events ::
  "(string \<Rightarrow> datetime option) \<Rightarrow> string list \<Rightarrow> (string \<rightharpoonup> string) \<Rightarrow> py_error + event list" where
  "row_events fromisoformat row_list user_dict =
     (let row_dict = map_of (zip CSV_HEADERS row_list) in
      case row_dict ''start_timestamp'' of
        None \<Rightarrow> Inl KeyError
      | Some s \<Rightarrow>
          (case fromisoformat (split_plus s) of
             None \<Rightarrow> Inl ValueError
           | Some start_timestamp \<Rightarrow>
               (case row_dict ''end_timestamp'' of
                  None \<Rightarrow> Inl KeyError
                | Some e \<Rightarrow>
                    (case fromisoformat (split_plus e) of
                       None \<Rightarrow> Inl ValueError
                     | Some end_timestamp \<Rightarrow>
                         if year start_timestamp < 2022 \<or> year end_timestamp < 2022 then Inr []
                         else
                           (case row_dict ''user_id'' of
                              None \<Rightarrow> Inl KeyError
                            | Some user_id \<Rightarrow>
                                (let user_name = (case user_dict user_id of None \<Rightarrow> user_id | Some n \<Rightarrow> n)
                                 in Inr [(start_timestamp, 1, user_name),
                                         (end_timestamp, - 1, user_name)]))))))"

fun collect_events ::
  "(string \<Rightarrow> datetime option) \<Rightarrow> string list list \<Rightarrow> (string \<rightharpoonup> string) \<Rightarrow> event list
     \<Rightarrow> py_error + event list" where
  "collect_events fromisoformat [] user_dict event_list = Inr event_list"
| "collect_events fromisoformat (row_list # rest) user_dict event_list =
     (case row_events fromisoformat row_list user_dict of
        Inl err \<Rightarrow> Inl err
      | Inr evs \<Rightarrow> collect_events fromisoformat rest user_dict (event_list @ evs))"

text \<open>
  \<^verbatim>\<open>sorted(event_list)\<close> sorts by the tuples' own order; two events that compare
  equal are the same value, so the sorted list is unique.
\<close>

definition get_event_list ::
  "(string \<Rightarrow> datetime option) \<Rightarrow> string list list \<Rightarrow> (string \<rightharpoonup> string) \<Rightarrow> py_error + event list" where
  "get_event_list fromisoformat session_rows user_dict =
     (case collect_events fromisoformat session_rows user_dict [] of
        Inl err \<Rightarrow> Inl err
      | Inr event_list \<Rightarrow> Inr (sort event_list))"

section \<open>write\_session\_count\_csv\_file\<close>

text \<open>Decimal text of an integer, as an f-string renders it.\<close>

definition digit_char :: "nat \<Rightarrow> char" where
  "digit_char d = char_of (48 + d)"

fun str_nat :: "nat \<Rightarrow> string" where
  "str_nat n = (if n < 10 then [digit_char n] else str_nat (n div 10) @ [digit_char (n mod 10)])"

declare str_nat.simps [simp del]

definition str_int :: "int \<Rightarrow> string" where
  "str_int i = (if i < 0 then CHR ''-'' # str_nat (nat (- i)) else str_nat (nat i))"

fun str_join :: "string \<Rightarrow> string list \<Rightarrow> string" where
  "str_join sep [] = []"
| "str_join sep [x] = x"
| "str_join sep (x # y # ys) = x @ sep @ str_join sep (y # ys)"

text \<open>
  \<^verbatim>\<open>current_users\<close> is a dictionary; it is kept as an association list in insertion
  order, which is what \<^verbatim>\<open>items()\<close> iterates over. Assignment to a key is
  \<open>AList.update\<close> (in place when the key is there, appended otherwise) and \<^verbatim>\<open>del\<close>
  is \<open>AList.delete\<close>.
\<close>

definition user_tokens :: "(string \<times> int) list \<Rightarrow> string list" where
  "user_tokens current_users = map (\<lambda>(key, val). key @ ''='' @ str_int val) current_users"

definition current_user_string :: "(string \<times> int) list \<Rightarrow> string" where
  "current_user_string current_users = str_join '' '' (sort (user_tokens current_users))"

text \<open>
  An output row holds the three values written to one line of the file:
  \<^verbatim>\<open>f'{timestamp},{session_count},{current_user_string}\n'\<close>.
\<close>

type_synonym output_row = "datetime \<times> int \<times> string"

record sweep_state =
  session_count :: int
  max_session_count :: int
  current_users :: "(string \<times> int) list"
  rows_written :: "output_row list"

definition initial_state :: sweep_state where
  "initial_state = \<lparr>session_count = 0, max_session_count = 0, current_users = [], rows_written = []\<rparr>"

text \<open>
  One pass through the body of \<^verbatim>\<open>for event in event_list\<close>. Reading
  \<^verbatim>\<open>current_users[event[2]]\<close> for an absent key is a KeyError, raised before the row
  is written.
\<close>

definition sweep_event :: "event \<Rightarrow> sweep_state \<Rightarrow> py_error + sweep_state" where
  "sweep_event event s =
     (let timestamp = fst event;
          delta = fst (snd event);
          name = snd (snd event);
          session_count' = session_count s + delta;
          cu1 = (if delta = 1
                 then AList.update name
                        ((case map_of (current_users s) name of None \<Rightarrow> 0 | Some c \<Rightarrow> c) + 1)
                        (current_users s)
                 else current_users s)
      in case (if delta = - 1
               then (case map_of cu1 name of
                       None \<Rightarrow> Inl KeyError
                     | Some c \<Rightarrow>
                         (let cu2 = AList.update name (c - 1) cu1
                          in if c - 1 = 0 then Inr (AList.delete name cu2) else Inr cu2))
               else Inr cu1) of
           Inl err \<Rightarrow> Inl err
         | Inr cu3 \<Rightarrow>
             Inr \<lparr>session_count = session_count',
                  max_session_count = max (max_session_count s) session_count',
                  current_users = cu3,
                  rows_written = rows_written s @ [(timestamp, session_count', current_user_string cu3)]\<rparr>)"

text \<open>
  The loop. When an event raises, the state returned is the one before that event:
  its \<open>rows_written\<close> are the lines already in the file.
\<close>

fun sweep_loop :: "event list \<Rightarrow> sweep_state \<Rightarrow> sweep_state \<times> py_error option" where
  "sweep_loop [] s = (s, None)"
| "sweep_loop (event # rest) s =
     (case sweep_event event s of
        Inl err \<Rightarrow> (s, Some err)
      | Inr s' \<Rightarrow> sweep_loop rest s')"

text \<open>
  The whole function: the rows written to the file after the header line, and either
  the error raised or the summary printed at the end (maximum session count, first and
  last timestamp). \<^verbatim>\<open>event_list[0]\<close> on an empty list is an IndexError.
\<close>

definition write_session_count_csv_file ::
  "event list \<Rightarrow> output_row list \<times> (py_error + int \<times> datetime \<times> datetime)" where
  "write_session_count_csv_file event_list =
     (case sweep_loop event_list initial_state of
        (s, Some err) \<Rightarrow> (rows_written s, Inl err)
      | (s, None) \<Rightarrow>
          (case event_list of
             [] \<Rightarrow> (rows_written s, Inl IndexError)
           | _ # _ \<Rightarrow>
               (rows_written s,
                Inr (max_session_count s, fst (hd event_list), fst (last event_list)))))"

section \<open>A parser for concrete runs\<close>

text \<open>
  \<^verbatim>\<open>datetime.fromisoformat\<close> is a library function; \<open>get_event_list\<close> takes it as an
  argument. For concrete runs the following function parses the two layouts
  \<^verbatim>\<open>YYYY-MM-DD\<close> and \<^verbatim>\<open>YYYY-MM-DD?HH:MM:SS\<close> (\<^verbatim>\<open>?\<close> any one character), with the
  library's range checks; on these it returns what the library returns. Other layouts
  the library accepts are not covered, so the concrete runs below use these two only.
\<close>

definition digit_of :: "char \<Rightarrow> nat option" where
  "digit_of c = (let n = (of_char c :: nat) in if 48 \<le> n \<and> n \<le> 57 then Some (n - 48) else None)"

fun number_of :: "string \<Rightarrow> nat \<Rightarrow> nat option" where
  "number_of [] acc = Some acc"
| "number_of (c # cs) acc =
     (case digit_of c of None \<Rightarrow> None | Some d \<Rightarrow> number_of cs (10 * acc + d))"

definition is_leap :: "nat \<Rightarrow> bool" where
  "is_leap y = (if y mod 100 = 0 then y mod 400 = 0 else y mod 4 = 0)"

definition days_in_month :: "nat \<Rightarrow> nat \<Rightarrow> nat" where
  "days_in_month y m =
     (if m = 2 then (if is_leap y then 29 else 28)
      else if m = 4 \<or> m = 6 \<or> m = 9 \<or> m = 11 then 30 else 31)"

definition parse_date :: "string \<Rightarrow> (nat \<times> nat \<times> nat) option" where
  "parse_date s =
     (if length s = 10 \<and> s ! 4 = CHR ''-'' \<and> s ! 7 = CHR ''-'' then
        (case (number_of (take 4 s) 0, number_of (take 2 (drop 5 s)) 0, number_of (drop 8 s) 0) of
           (Some y, Some m, Some d) \<Rightarrow>
             if 1 \<le> y \<and> 1 \<le> m \<and> m \<le> 12 \<and> 1 \<le> d \<and> d \<le> days_in_month y m
             then Some (y, m, d) else None
         | _ \<Rightarrow> None)
      else None)"

definition parse_time :: "string \<Rightarrow> (nat \<times> nat \<times> nat) option" where
  "parse_time s =
     (if length s = 8 \<and> s ! 2 = CHR '':'' \<and> s ! 5 = CHR '':'' then
        (case (number_of (take 2 s) 0, number_of (take 2 (drop 3 s)) 0, number_of (drop 6 s) 0) of
           (Some h, Some mi, Some sec) \<Rightarrow>
             if h < 24 \<and> mi < 60 \<and> sec < 60 then Some (h, mi, sec) else None
         | _ \<Rightarrow> None)
      else None)"

definition fromisoformat_basic :: "string \<Rightarrow> datetime option" where
  "fromisoformat_basic s =
     (if length s = 10 then
        (case parse_date s of
           None \<Rightarrow> None
         | Some (y, m, d) \<Rightarrow> Some (y, m, d, 0, 0, 0, 0))
      else if length s = 19 then
        (case (parse_date (take 10 s), parse_time (drop 11 s)) of
           (Some (y, m, d), Some (h, mi, sec)) \<Rightarrow> Some (y, m, d, h, mi, sec, 0)
         | _ \<Rightarrow> None)
      else None)"

section \<open>Notions of the specification\<close>

text \<open>
  The compound sort key of the specification, written out: ascending timestamp, ties
  broken by ascending delta, then by ascending name.
\<close>

definition event_key_le :: "event \<Rightarrow> event \<Rightarrow> bool" where
  "event_key_le a b =
     (fst a < fst b \<or>
      (fst a = fst b \<and>
         (fst (snd a) < fst (snd b) \<or>
          (fst (snd a) = fst (snd b) \<and> snd (snd a) \<le> snd (snd b)))))"

text \<open>The two timestamps of a row, when the row has them and both parse.\<close>

definition parsed_times :: "(string \<Rightarrow> datetime option) \<Rightarrow> string list \<Rightarrow> (datetime \<times> datetime) option" where
  "parsed_times fromisoformat row_list =
     (case row_list of
        s # e # _ \<Rightarrow>
          (case (fromisoformat (split_plus s), fromisoformat (split_plus e)) of
             (Some st, Some en) \<Rightarrow> Some (st, en)
           | _ \<Rightarrow> None)
      | _ \<Rightarrow> None)"

text \<open>A record is valid when both of its timestamps have a year of 2022 or later.\<close>

definition valid_record :: "(string \<Rightarrow> datetime option) \<Rightarrow> string list \<Rightarrow> bool" where
  "valid_record fromisoformat row_list =
     (case parsed_times fromisoformat row_list of
        Some (st, en) \<Rightarrow> 2022 \<le> year st \<and> 2022 \<le> year en
      | None \<Rightarrow> False)"

text \<open>The display name of a user id: the directory's entry, or the id itself.\<close>

definition display_name :: "(string \<rightharpoonup> string) \<Rightarrow> string \<Rightarrow> string" where
  "display_name user_dict user_id = (case user_dict user_id of None \<Rightarrow> user_id | Some n \<Rightarrow> n)"

text \<open>The start event and the end event of a session record.\<close>

definition session_events ::
  "(string \<Rightarrow> datetime option) \<Rightarrow> string list \<Rightarrow> (string \<rightharpoonup> string) \<Rightarrow> event list" where
  "session_events fromisoformat row_list user_dict =
     (case row_list of
        s # e # u # _ \<Rightarrow>
          (case (fromisoformat (split_plus s), fromisoformat (split_plus e)) of
             (Some st, Some en) \<Rightarrow>
               [(st, 1, display_name user_dict u), (en, - 1, display_name user_dict u)]
           | _ \<Rightarrow> [])
      | _ \<Rightarrow> [])"

text \<open>How many start events, and how many end events, of a name are in a list of events.\<close>

definition starts_fired :: "string \<Rightarrow> event list \<Rightarrow> nat" where
  "starts_fired n es = length (filter (\<lambda>e. fst (snd e) = 1 \<and> snd (snd e) = n) es)"

definition ends_fired :: "string \<Rightarrow> event list \<Rightarrow> nat" where
  "ends_fired n es = length (filter (\<lambda>e. fst (snd e) = - 1 \<and> snd (snd e) = n) es)"

text \<open>
  The count the specification describes: the sessions of a name whose start event is
  among the events processed and whose end event is not. A session is given by its
  start event and its end event.
\<close>

definition open_session_count :: "(event \<times> event) list \<Rightarrow> event list \<Rightarrow> string \<Rightarrow> nat" where
  "open_session_count sessions fired n =
     length (filter (\<lambda>(st, en). snd (snd st) = n \<and> st \<in> set fired \<and> en \<notin> set fired) sessions)"


text \<open>The sessions of the rows that pass the filter, each as its start and end event.\<close>

definition sessions_of ::
  "(string \<Rightarrow> datetime option) \<Rightarrow> string list list \<Rightarrow> (string \<rightharpoonup> string) \<Rightarrow> (event \<times> event) list" where
  "sessions_of fromisoformat session_rows user_dict =
     concat (map (\<lambda>row. case row_events fromisoformat row user_dict of
                           Inr [a, b] \<Rightarrow> [(a, b)]
                         | _ \<Rightarrow> []) session_rows)"

section \<open>Concrete inputs\<close>

text \<open>
  Four session rows: a full row carrying UTC offsets, a row of four fields, a row
  whose start lies in 2021, and a row of three fields whose user is not in the
  directory.
\<close>

definition example_rows :: "string list list" where
  "example_rows =
     [[''2023-01-01T10:00:00+00:00'', ''2023-01-01T11:00:00+00:00'', ''u1'', ''env1'', ''obj1''],
      [''2023-01-01T10:30:00'', ''2023-01-01T10:45:00'', ''u2'', ''env2''],
      [''2021-06-01T09:00:00'', ''2023-01-01T09:30:00'', ''u1'', ''env1'', ''obj1''],
      [''2023-01-02T08:00:00'', ''2023-01-02T09:00:00'', ''u9'']]"

definition example_users :: "string \<rightharpoonup> string" where
  "example_users = [''u1'' \<mapsto> ''Alice'', ''u2'' \<mapsto> ''Bob'']"

definition example_events :: "event list" where
  "example_events =
     [((2023, 1, 1, 10, 0, 0, 0), 1, ''Alice''),
      ((2023, 1, 1, 10, 30, 0, 0), 1, ''Bob''),
      ((2023, 1, 1, 10, 45, 0, 0), - 1, ''Bob''),
      ((2023, 1, 1, 11, 0, 0, 0), - 1, ''Alice''),
      ((2023, 1, 2, 8, 0, 0, 0), 1, ''u9''),
      ((2023, 1, 2, 9, 0, 0, 0), - 1, ''u9'')]"

definition example_output :: "output_row list" where
  "example_output =
     [((2023, 1, 1, 10, 0, 0, 0), 1, ''Alice=1''),
      ((2023, 1, 1, 10, 30, 0, 0), 2, ''Alice=1 Bob=1''),
      ((2023, 1, 1, 10, 45, 0, 0), 1, ''Alice=1''),
      ((2023, 1, 1, 11, 0, 0, 0), 0, []),
      ((2023, 1, 2, 8, 0, 0, 0), 1, ''u9=1''),
      ((2023, 1, 2, 9, 0, 0, 0), 0, [])]"

text \<open>
  Two sessions of one user; the second has its end before its start, which the
  filter does not reject.
\<close>

definition reversed_rows :: "string list list" where
  "reversed_rows =
     [[''2023-01-01T10:00:00'', ''2023-01-01T20:00:00'', ''u1''],
      [''2023-01-01T15:00:00'', ''2023-01-01T12:00:00'', ''u1'']]"

definition reversed_events :: "event list" where
  "reversed_events =
     [((2023, 1, 1, 10, 0, 0, 0), 1, ''u1''),
      ((2023, 1, 1, 12, 0, 0, 0), - 1, ''u1''),
      ((2023, 1, 1, 15, 0, 0, 0), 1, ''u1''),
      ((2023, 1, 1, 20, 0, 0, 0), - 1, ''u1'')]"



section \<open>Auxiliary lemmas\<close>

lemma row_dict_start:
  "map_of (zip CSV_HEADERS row_list) ''start_timestamp'' = (case row_list of [] \<Rightarrow> None | s # _ \<Rightarrow> Some s)"
  by (cases row_list) (simp_all add: CSV_HEADERS_def)

lemma row_dict_end:
  "map_of (zip CSV_HEADERS row_list) ''end_timestamp'' = (case row_list of s # e # _ \<Rightarrow> Some e | _ \<Rightarrow> None)"
  by (cases row_list; cases "tl row_list") (simp_all add: CSV_HEADERS_def)

lemma row_dict_user:
  "map_of (zip CSV_HEADERS row_list) ''user_id'' = (case row_list of s # e # u # _ \<Rightarrow> Some u | _ \<Rightarrow> None)"
  by (cases row_list; cases "tl row_list"; cases "tl (tl row_list)") (simp_all add: CSV_HEADERS_def)

lemma row_events_cases:
  "row_events p row_list ud =
     (case row_list of
        [] \<Rightarrow> Inl KeyError
      | s # rest \<Rightarrow>
          (case p (split_plus s) of
             None \<Rightarrow> Inl ValueError
           | Some st \<Rightarrow>
               (case rest of
                  [] \<Rightarrow> Inl KeyError
                | e # rest' \<Rightarrow>
                    (case p (split_plus e) of
                       None \<Rightarrow> Inl ValueError
                     | Some en \<Rightarrow>
                         if year st < 2022 \<or> year en < 2022 then Inr []
                         else (case rest' of
                                 [] \<Rightarrow> Inl KeyError
                               | u # _ \<Rightarrow> Inr [(st, 1, display_name ud u), (en, - 1, display_name ud u)])))))"
  unfolding row_events_def Let_def row_dict_start row_dict_end row_dict_user display_name_def
  by (simp split: list.splits option.splits)

lemma row_events_Inr:
  assumes "row_events p row_list ud = Inr evs"
  shows "evs = (if valid_record p row_list then session_events p row_list ud else [])"
  using assms unfolding row_events_cases valid_record_def parsed_times_def session_events_def
  by (auto split: list.splits option.splits if_splits)

lemma collect_events_acc:
  "collect_events p rows ud acc =
     (case collect_events p rows ud [] of Inl err \<Rightarrow> Inl err | Inr es \<Rightarrow> Inr (acc @ es))"
proof (induction rows arbitrary: acc)
  case Nil
  show ?case by simp
next
  case (Cons row rows)
  show ?case
  proof (cases "row_events p row ud")
    case (Inl err)
    then show ?thesis by simp
  next
    case (Inr evs)
    show ?thesis
      using Cons.IH [of "acc @ evs"] Cons.IH [of evs] Inr
      by (simp split: sum.splits)
  qed
qed

lemma collect_events_Cons:
  "collect_events p (row # rows) ud [] =
     (case row_events p row ud of
        Inl err \<Rightarrow> Inl err
      | Inr evs \<Rightarrow>
          (case collect_events p rows ud [] of Inl err \<Rightarrow> Inl err | Inr es \<Rightarrow> Inr (evs @ es)))"
proof (cases "row_events p row ud")
  case (Inl err)
  then show ?thesis by simp
next
  case (Inr evs)
  show ?thesis
    using collect_events_acc [of p rows ud evs] Inr by simp
qed

lemma collect_events_append:
  "collect_events p (xs @ ys) ud [] =
     (case collect_events p xs ud [] of
        Inl err \<Rightarrow> Inl err
      | Inr a \<Rightarrow>
          (case collect_events p ys ud [] of Inl err \<Rightarrow> Inl err | Inr b \<Rightarrow> Inr (a @ b)))"
proof (induction xs)
  case Nil
  show ?case by (simp split: sum.splits)
next
  case (Cons x xs)
  show ?case
    unfolding append_Cons collect_events_Cons Cons.IH
    by (simp split: sum.splits)
qed

lemma collect_events_Inr:
  "collect_events p rows ud [] = Inr es \<Longrightarrow>
     es = concat (map (\<lambda>row. session_events p row ud) (filter (valid_record p) rows))"
proof (induction rows arbitrary: es)
  case Nil
  then show ?case by simp
next
  case (Cons row rows)
  from Cons.prems obtain evs es' where
    r: "row_events p row ud = Inr evs" and c: "collect_events p rows ud [] = Inr es'" and e: "es = evs @ es'"
    unfolding collect_events_Cons by (auto split: sum.splits)
  show ?case
    using Cons.IH [OF c] row_events_Inr [OF r] e by simp
qed

lemma session_events_length:
  "valid_record p row \<Longrightarrow> row_events p row ud = Inr evs \<Longrightarrow> length (session_events p row ud) = 2"
  unfolding row_events_cases valid_record_def parsed_times_def session_events_def
  by (auto split: list.splits option.splits if_splits)

lemma collect_events_length:
  "collect_events p rows ud [] = Inr es \<Longrightarrow> length es = 2 * length (filter (valid_record p) rows)"
proof (induction rows arbitrary: es)
  case Nil
  then show ?case by simp
next
  case (Cons row rows)
  from Cons.prems obtain evs es' where
    r: "row_events p row ud = Inr evs" and c: "collect_events p rows ud [] = Inr es'" and e: "es = evs @ es'"
    unfolding collect_events_Cons by (auto split: sum.splits)
  show ?case
    using Cons.IH [OF c] row_events_Inr [OF r] session_events_length [OF _ r] e by simp
qed


lemma sweep_event_underflow:
  "map_of (current_users s) n = None \<Longrightarrow> sweep_event (t, - 1, n) s = Inl KeyError"
  unfolding sweep_event_def Let_def by simp

lemma sweep_event_fields:
  assumes "sweep_event e s = Inr s'"
  shows "session_count s' = session_count s + fst (snd e)"
    and "rows_written s' =
           rows_written s @ [(fst e, session_count s + fst (snd e), current_user_string (current_users s'))]"
    and "max_session_count s' = max (max_session_count s) (session_count s + fst (snd e))"
  using assms unfolding sweep_event_def Let_def
  by (auto split: if_splits option.splits sum.splits)

lemma sweep_event_users:
  assumes "sweep_event e s = Inr s'"
  shows "current_users s' =
           (if fst (snd e) = 1
            then AList.update (snd (snd e))
                   ((case map_of (current_users s) (snd (snd e)) of None \<Rightarrow> 0 | Some c \<Rightarrow> c) + 1)
                   (current_users s)
            else if fst (snd e) = - 1
            then (case map_of (current_users s) (snd (snd e)) of
                    None \<Rightarrow> current_users s
                  | Some c \<Rightarrow> if c = 1 then AList.delete (snd (snd e)) (current_users s)
                              else AList.update (snd (snd e)) (c - 1) (current_users s))
            else current_users s)"
    and "fst (snd e) = - 1 \<Longrightarrow> map_of (current_users s) (snd (snd e)) \<noteq> None"
  using assms unfolding sweep_event_def Let_def
  by (auto split: if_splits option.splits sum.splits simp: AList.delete_update_same)

lemma sweep_loop_append:
  "sweep_loop (xs @ ys) s =
     (case sweep_loop xs s of (s', None) \<Rightarrow> sweep_loop ys s' | (s', Some err) \<Rightarrow> (s', Some err))"
proof (induction xs arbitrary: s)
  case Nil
  show ?case by simp
next
  case (Cons x xs)
  show ?case
    by (cases "sweep_event x s") (simp_all add: Cons.IH)
qed


lemma sweep_loop_rows_prefix:
  "sweep_loop es s = (s', r) \<Longrightarrow>
     \<exists>k\<le>length es. map fst (rows_written s') = map fst (rows_written s) @ map fst (take k es)"
proof (induction es arbitrary: s)
  case Nil
  then show ?case by simp
next
  case (Cons e es)
  show ?case
  proof (cases "sweep_event e s")
    case (Inl err)
    with Cons.prems have "s' = s" by simp
    then show ?thesis by (intro exI [of _ 0]) simp
  next
    case (Inr s1)
    with Cons.prems have "sweep_loop es s1 = (s', r)" by simp
    from Cons.IH [OF this] obtain k where
      k: "k \<le> length es" "map fst (rows_written s') = map fst (rows_written s1) @ map fst (take k es)"
      by blast
    show ?thesis
      using k sweep_event_fields(2) [OF Inr] by (intro exI [of _ "Suc k"]) simp
  qed
qed

lemma fst_mono_event: "(a::event) \<le> b \<Longrightarrow> fst a \<le> fst b"
  by (cases a; cases b) auto

lemma sorted_map_fst_events: "sorted (es::event list) \<Longrightarrow> sorted (map fst es)"
  unfolding sorted_map by (erule sorted_wrt_mono_rel [rotated]) (rule fst_mono_event)

lemma event_le_iff: "(a::event) \<le> b \<longleftrightarrow> event_key_le a b"
  unfolding event_key_le_def by (cases a; cases b) auto

lemma starts_fired_snoc:
  "starts_fired n (pre @ [e]) = starts_fired n pre + (if fst (snd e) = 1 \<and> snd (snd e) = n then 1 else 0)"
  by (simp add: starts_fired_def)

lemma ends_fired_snoc:
  "ends_fired n (pre @ [e]) = ends_fired n pre + (if fst (snd e) = - 1 \<and> snd (snd e) = n then 1 else 0)"
  by (simp add: ends_fired_def)

lemma sweep_event_counts:
  assumes step: "sweep_event e s = Inr s'"
    and d: "distinct (map fst (current_users s))"
    and m: "\<And>n. map_of (current_users s) n =
              (if starts_fired n pre = ends_fired n pre then None
               else Some (int (starts_fired n pre) - int (ends_fired n pre)))"
    and le: "\<And>n. ends_fired n pre \<le> starts_fired n pre"
  shows "distinct (map fst (current_users s'))"
    and "map_of (current_users s') n =
           (if starts_fired n (pre @ [e]) = ends_fired n (pre @ [e]) then None
            else Some (int (starts_fired n (pre @ [e])) - int (ends_fired n (pre @ [e]))))"
    and "ends_fired n (pre @ [e]) \<le> starts_fired n (pre @ [e])"
proof -
  let ?d = "fst (snd e)" and ?u = "snd (snd e)"
  let ?cu = "current_users s"
  note u = sweep_event_users [OF step]
  consider (start) "?d = 1" | (stop) "?d = - 1" | (other) "?d \<noteq> 1" "?d \<noteq> - 1" by blast
  then have "distinct (map fst (current_users s')) \<and>
         map_of (current_users s') n =
           (if starts_fired n (pre @ [e]) = ends_fired n (pre @ [e]) then None
            else Some (int (starts_fired n (pre @ [e])) - int (ends_fired n (pre @ [e])))) \<and>
         ends_fired n (pre @ [e]) \<le> starts_fired n (pre @ [e])"
  proof cases
    case start
    define v where "v = (case map_of ?cu ?u of None \<Rightarrow> 0 | Some c \<Rightarrow> c) + 1"
    have cu: "current_users s' = AList.update ?u v ?cu"
      using u(1) start by (simp add: v_def)
    have vv: "v = int (starts_fired ?u pre) - int (ends_fired ?u pre) + 1"
      unfolding v_def m by simp
    have dist: "distinct (map fst (current_users s'))"
      unfolding cu using d by (rule AList.distinct_update)
    have mo: "map_of (current_users s') n = (if n = ?u then Some v else map_of ?cu n)"
      unfolding cu AList.update_conv' by simp
    have "map_of (current_users s') n =
           (if starts_fired n (pre @ [e]) = ends_fired n (pre @ [e]) then None
            else Some (int (starts_fired n (pre @ [e])) - int (ends_fired n (pre @ [e]))))"
      unfolding mo m vv starts_fired_snoc ends_fired_snoc
      using start le [of n] le [of ?u] by auto
    moreover have "ends_fired n (pre @ [e]) \<le> starts_fired n (pre @ [e])"
      unfolding starts_fired_snoc ends_fired_snoc using start le [of n] by simp
    ultimately show ?thesis using dist by simp
  next
    case stop
    from u(2) [OF stop] obtain c where c: "map_of ?cu ?u = Some c" by blast
    from c have ne: "starts_fired ?u pre \<noteq> ends_fired ?u pre"
      and cv: "c = int (starts_fired ?u pre) - int (ends_fired ?u pre)"
      unfolding m by (simp_all split: if_splits)
    have cu: "current_users s' =
        (if c = 1 then AList.delete ?u ?cu else AList.update ?u (c - 1) ?cu)"
      using u(1) stop c by simp
    have dist: "distinct (map fst (current_users s'))"
      unfolding cu using d by (simp add: AList.distinct_update AList.distinct_delete)
    have mo: "map_of (current_users s') n =
        (if n = ?u then (if c = 1 then None else Some (c - 1)) else map_of ?cu n)"
      unfolding cu by (simp add: AList.update_conv' AList.delete_conv')
    have "map_of (current_users s') n =
           (if starts_fired n (pre @ [e]) = ends_fired n (pre @ [e]) then None
            else Some (int (starts_fired n (pre @ [e])) - int (ends_fired n (pre @ [e]))))"
      unfolding mo m cv starts_fired_snoc ends_fired_snoc
      using stop ne le [of ?u] by auto
    moreover have "ends_fired n (pre @ [e]) \<le> starts_fired n (pre @ [e])"
      unfolding starts_fired_snoc ends_fired_snoc using stop ne le [of n] by auto
    ultimately show ?thesis using dist by simp
  next
    case other
    have cu: "current_users s' = ?cu" using u(1) other by simp
    show ?thesis
      unfolding cu m starts_fired_snoc ends_fired_snoc
      using other d le [of n] by simp
  qed
  then show "distinct (map fst (current_users s'))"
    and "map_of (current_users s') n =
           (if starts_fired n (pre @ [e]) = ends_fired n (pre @ [e]) then None
            else Some (int (starts_fired n (pre @ [e])) - int (ends_fired n (pre @ [e]))))"
    and "ends_fired n (pre @ [e]) \<le> starts_fired n (pre @ [e])"
    by simp_all
qed

lemma sweep_loop_snoc:
  "sweep_loop (xs @ [x]) s = (s', None) \<Longrightarrow>
     \<exists>s1. sweep_loop xs s = (s1, None) \<and> sweep_event x s1 = Inr s'"
  unfolding sweep_loop_append
  by (auto split: prod.splits option.splits sum.splits)

lemma sweep_loop_counts:
  "sweep_loop es initial_state = (s, None) \<Longrightarrow>
     distinct (map fst (current_users s)) \<and>
     (\<forall>n. map_of (current_users s) n =
            (if starts_fired n es = ends_fired n es then None
             else Some (int (starts_fired n es) - int (ends_fired n es)))) \<and>
     (\<forall>n. ends_fired n es \<le> starts_fired n es)"
proof (induction es arbitrary: s rule: rev_induct)
  case Nil
  then have "s = initial_state" by simp
  then show ?case by (simp add: initial_state_def starts_fired_def ends_fired_def)
next
  case (snoc e es)
  from sweep_loop_snoc [OF snoc.prems] obtain s1 where
    l: "sweep_loop es initial_state = (s1, None)" and st: "sweep_event e s1 = Inr s" by blast
  from snoc.IH [OF l] have
    d: "distinct (map fst (current_users s1))"
    and m: "\<And>n. map_of (current_users s1) n =
              (if starts_fired n es = ends_fired n es then None
               else Some (int (starts_fired n es) - int (ends_fired n es)))"
    and le: "\<And>n. ends_fired n es \<le> starts_fired n es"
    by simp_all
  show ?case
    using sweep_event_counts [OF st d m le] by blast
qed

lemma sum_values_update:
  "sum_list (map snd (AList.update k v al)) =
     sum_list (map snd al) - (case map_of al k of None \<Rightarrow> 0 | Some c \<Rightarrow> c) + (v::int)"
  by (induction al) auto

lemma sum_values_delete:
  "distinct (map fst al) \<Longrightarrow>
     sum_list (map snd (AList.delete k al)) =
       sum_list (map snd al) - (case map_of al k of None \<Rightarrow> 0 | Some (c::int) \<Rightarrow> c)"
proof (induction al)
  case Nil
  show ?case by simp
next
  case (Cons a al)
  show ?case
  proof (cases "fst a = k")
    case True
    with Cons.prems have "k \<notin> fst ` set al" by auto
    then have "AList.delete k al = al" by simp
    with True show ?thesis by (cases a) simp
  next
    case False
    with Cons show ?thesis by (cases a) simp
  qed
qed

lemma sweep_event_total:
  assumes step: "sweep_event e s = Inr s'"
    and d: "distinct (map fst (current_users s))"
    and pm: "fst (snd e) = 1 \<or> fst (snd e) = - 1"
    and t: "session_count s = sum_list (map snd (current_users s))"
  shows "session_count s' = sum_list (map snd (current_users s'))"
proof -
  note u = sweep_event_users [OF step]
  note f = sweep_event_fields(1) [OF step]
  from pm show ?thesis
  proof
    assume start: "fst (snd e) = 1"
    show ?thesis
      unfolding f u(1) using start t
      by (simp add: sum_values_update split: option.splits)
  next
    assume stop: "fst (snd e) = - 1"
    from u(2) [OF stop] obtain c where c: "map_of (current_users s) (snd (snd e)) = Some c" by blast
    show ?thesis
      unfolding f u(1) using stop t c d
      by (simp add: sum_values_update sum_values_delete)
  qed
qed

lemma sweep_loop_total:
  "sweep_loop es initial_state = (s, None) \<Longrightarrow>
   \<forall>e\<in>set es. fst (snd e) = 1 \<or> fst (snd e) = - 1 \<Longrightarrow>
     session_count s = sum_list (map snd (current_users s))"
proof (induction es arbitrary: s rule: rev_induct)
  case Nil
  then have "s = initial_state" by simp
  then show ?case by (simp add: initial_state_def)
next
  case (snoc e es)
  from sweep_loop_snoc [OF snoc.prems(1)] obtain s1 where
    l: "sweep_loop es initial_state = (s1, None)" and st: "sweep_event e s1 = Inr s" by blast
  from snoc.prems(2) have pm: "fst (snd e) = 1 \<or> fst (snd e) = - 1"
    and rest: "\<forall>e\<in>set es. fst (snd e) = 1 \<or> fst (snd e) = - 1" by simp_all
  from sweep_loop_counts [OF l] have d: "distinct (map fst (current_users s1))" by simp
  show ?case
    using sweep_event_total [OF st d pm snoc.IH [OF l rest]] .
qed

lemma unpaired_none_empty:
  assumes "\<And>n. map_of al n = None"
  shows "al = []"
proof (cases al)
  case Nil
  then show ?thesis .
next
  case (Cons a al')
  with assms [of "fst a"] show ?thesis by (cases a) simp
qed

lemma get_event_list_append:
  "get_event_list p (xs @ ys) ud =
     (case collect_events p xs ud [] of
        Inl err \<Rightarrow> Inl err
      | Inr a \<Rightarrow>
          (case collect_events p ys ud [] of Inl err \<Rightarrow> Inl err | Inr b \<Rightarrow> Inr (sort (a @ b))))"
  unfolding get_event_list_def collect_events_append by (simp split: sum.splits)

lemma row_events_take3:
  assumes "3 \<le> length row"
  shows "row_events p row ud = row_events p (take 3 row) ud"
    and "row_events p row ud \<noteq> Inl KeyError"
proof -
  from assms obtain s e u rest where row: "row = s # e # u # rest"
    by (cases row; cases "tl row"; cases "tl (tl row)") auto
  show "row_events p row ud = row_events p (take 3 row) ud"
    unfolding row row_events_cases by (simp split: option.splits)
  show "row_events p row ud \<noteq> Inl KeyError"
    unfolding row row_events_cases by (simp split: option.splits)
qed

lemma collect_events_take3:
  "\<forall>row\<in>set rows. 3 \<le> length row \<Longrightarrow>
     collect_events p rows ud [] = collect_events p (map (take 3) rows) ud [] \<and>
     collect_events p rows ud [] \<noteq> Inl KeyError"
proof (induction rows)
  case Nil
  show ?case by simp
next
  case (Cons row rows)
  from Cons.prems have l: "3 \<le> length row" and rest: "\<forall>row\<in>set rows. 3 \<le> length row" by simp_all
  note ih = Cons.IH [OF rest]
  show ?case
    unfolding list.map collect_events_Cons row_events_take3(1) [OF l, symmetric]
    using ih row_events_take3(2) [OF l, of p ud]
    by (auto split: sum.splits)
qed









lemma example_run: "get_event_list fromisoformat_basic example_rows example_users = Inr example_events"
  by code_simp


section \<open>Claims about the event stream builder and the sweep\<close>

text \<open>
  Claim C1. Whenever \<open>get_event_list\<close> returns an event list, that list is sorted
  ascending by the compound key (timestamp, delta, name): by timestamp first, ties
  broken by the integer delta, then by the name. Hence the timestamps of the events
  are non-decreasing, and so are the timestamps of the rows that
  \<open>write_session_count_csv_file\<close> writes for them.
\<close>

theorem stream_sorted:
  assumes "get_event_list p rows ud = Inr es"
  shows "sorted_wrt event_key_le es \<and>
         sorted (map fst es) \<and>
         sorted (map fst (fst (write_session_count_csv_file es)))"
proof -
  from assms obtain el where es: "es = sort el"
    unfolding get_event_list_def by (auto split: sum.splits)
  have s: "sorted es" using es by simp
  have a: "sorted_wrt event_key_le es"
    using s by (simp add: event_le_iff [abs_def])
  have b: "sorted (map fst es)" using s by (rule sorted_map_fst_events)
  obtain s' r where l: "sweep_loop es initial_state = (s', r)" by (cases "sweep_loop es initial_state")
  from sweep_loop_rows_prefix [OF l] obtain k where
    k: "map fst (rows_written s') = map fst (take k es)"
    by (auto simp: initial_state_def)
  have w: "fst (write_session_count_csv_file es) = rows_written s'"
    unfolding write_session_count_csv_file_def l by (simp split: option.splits list.splits)
  have c: "sorted (map fst (fst (write_session_count_csv_file es)))"
    unfolding w k take_map [symmetric] using b by (rule sorted_wrt_take)
  from a b c show ?thesis by simp
qed

theorem stream_sorted_witness:
  "get_event_list fromisoformat_basic example_rows example_users = Inr example_events \<and>
   sorted_wrt event_key_le example_events \<and>
   sorted (map fst example_events) \<and>
   sorted (map fst (fst (write_session_count_csv_file example_events)))"
  by (rule conjI [OF example_run stream_sorted [OF example_run]])

text \<open>
  Claim C2, amended. After any number \<open>k\<close> of events processed without a KeyError,
  \<open>current_users\<close> maps a name to the number of that name's start events processed so
  far minus the number of its end events processed so far; the name is absent exactly
  when the two numbers are equal, the end events never outnumber the start events,
  every count stored is at least 1, and no name is stored twice.
\<close>

theorem active_users_counts:
  assumes "sweep_loop (take k es) initial_state = (s, None)"
  shows "map_of (current_users s) n =
           (if starts_fired n (take k es) = ends_fired n (take k es) then None
            else Some (int (starts_fired n (take k es)) - int (ends_fired n (take k es)))) \<and>
         ends_fired n (take k es) \<le> starts_fired n (take k es) \<and>
         (\<forall>(m, c)\<in>set (current_users s). 1 \<le> c) \<and>
         distinct (map fst (current_users s))"
proof -
  note inv = sweep_loop_counts [OF assms]
  from inv have d: "distinct (map fst (current_users s))" by simp
  have "1 \<le> c" if mc: "(m, c) \<in> set (current_users s)" for m c
  proof -
    from mc d have "map_of (current_users s) m = Some c" by simp
    with inv have "starts_fired m (take k es) \<noteq> ends_fired m (take k es)"
      and "c = int (starts_fired m (take k es)) - int (ends_fired m (take k es))"
      and "ends_fired m (take k es) \<le> starts_fired m (take k es)"
      by (auto split: if_splits)
    then show ?thesis by linarith
  qed
  then have "\<forall>(m, c)\<in>set (current_users s). 1 \<le> c" by blast
  with inv show ?thesis by simp
qed

theorem active_users_counts_witness:
  "sweep_loop (take 2 example_events) initial_state =
     (\<lparr>session_count = 2, max_session_count = 2, current_users = [(''Alice'', 1), (''Bob'', 1)],
       rows_written = take 2 example_output\<rparr>, None) \<and>
   map_of [(''Alice'', 1), (''Bob'', 1)] ''Alice'' = Some (1::int) \<and>
   starts_fired ''Alice'' (take 2 example_events) = 1 \<and>
   ends_fired ''Alice'' (take 2 example_events) = 0"
proof -
  let ?s = "\<lparr>session_count = 2, max_session_count = 2, current_users = [(''Alice'', 1), (''Bob'', 1)],
       rows_written = take 2 example_output\<rparr>"
  have h: "sweep_loop (take 2 example_events) initial_state = (?s, None)"
    by code_simp
  have a: "starts_fired ''Alice'' (take 2 example_events) = 1"
    by (simp add: example_events_def starts_fired_def)
  have b: "ends_fired ''Alice'' (take 2 example_events) = 0"
    by (simp add: example_events_def ends_fired_def)
  from active_users_counts [OF h, of "''Alice''"] a b
  have "map_of [(''Alice'', 1), (''Bob'', 1)] ''Alice'' = Some (1::int)" by simp
  with h a b show ?thesis by blast
qed

text \<open>
  The claim C2 as first stated counts sessions: those of the name whose start event
  has been processed and whose end event has not. For the two sessions of
  \<open>reversed_rows\<close>, whose four events are distinct, after the first two events the
  first session (10:00 to 20:00) is open in that sense, yet \<open>current_users\<close> has no
  entry for the user: the end event of the second session, at 12:00, was charged to
  the first.
\<close>

theorem open_sessions_counterexample:
  "get_event_list fromisoformat_basic reversed_rows Map.empty = Inr reversed_events \<and>
   snd (sweep_loop (take 2 reversed_events) initial_state) = None \<and>
   map_of (current_users (fst (sweep_loop (take 2 reversed_events) initial_state))) ''u1'' = None \<and>
   open_session_count (sessions_of fromisoformat_basic reversed_rows Map.empty)
     (take 2 reversed_events) ''u1'' = 1 \<and>
   map_of (current_users (fst (sweep_loop (take 2 reversed_events) initial_state))) ''u1'' \<noteq>
     Some (int (open_session_count (sessions_of fromisoformat_basic reversed_rows Map.empty)
                  (take 2 reversed_events) ''u1''))"
  by code_simp

text \<open>
  Claim C3. Whenever \<open>get_event_list\<close> returns an event list, its length is twice the
  number of valid rows, and as a multiset it consists of the start event
  \<open>(start, 1, name)\<close> and the end event \<open>(end, - 1, name)\<close> of each valid row.
\<close>

theorem event_count:
  assumes "get_event_list p rows ud = Inr es"
  shows "length es = 2 * length (filter (valid_record p) rows) \<and>
         mset es = mset (concat (map (\<lambda>row. session_events p row ud) (filter (valid_record p) rows)))"
proof -
  from assms obtain el where c: "collect_events p rows ud [] = Inr el" and s: "es = sort el"
    unfolding get_event_list_def by (auto split: sum.splits)
  show ?thesis
    using collect_events_length [OF c] collect_events_Inr [OF c] s by simp
qed

theorem event_count_witness:
  "get_event_list fromisoformat_basic example_rows example_users = Inr example_events \<and>
   length example_events = 2 * length (filter (valid_record fromisoformat_basic) example_rows) \<and>
   mset example_events =
     mset (concat (map (\<lambda>row. session_events fromisoformat_basic row example_users)
                       (filter (valid_record fromisoformat_basic) example_rows)))"
  by (rule conjI [OF example_run event_count [OF example_run]])




text \<open>
  Claim C5. A row whose two timestamps parse and one of which has a year before 2022
  contributes no event: the loop body appends nothing for it, and the result of
  \<open>get_event_list\<close> is the same as for the input without that row.
\<close>

theorem old_records_dropped:
  assumes "parsed_times p row = Some (st, en)"
    and "year st < 2022 \<or> year en < 2022"
  shows "row_events p row ud = Inr [] \<and>
         get_event_list p (pre @ row # post) ud = get_event_list p (pre @ post) ud"
proof -
  have r: "row_events p row ud = Inr []"
    using assms unfolding row_events_cases parsed_times_def
    by (auto split: list.splits option.splits)
  have c: "collect_events p (row # post) ud [] = collect_events p post ud []"
    unfolding collect_events_Cons r by (simp split: sum.splits)
  show ?thesis
    unfolding get_event_list_append c using r by simp
qed

theorem old_records_dropped_witness:
  "parsed_times fromisoformat_basic
      [''2021-06-01T09:00:00'', ''2023-01-01T09:30:00'', ''u1'', ''env1'', ''obj1'']
     = Some ((2021, 6, 1, 9, 0, 0, 0), (2023, 1, 1, 9, 30, 0, 0)) \<and>
   year (2021, 6, 1, 9, 0, 0, 0) < 2022 \<and>
   row_events fromisoformat_basic
      [''2021-06-01T09:00:00'', ''2023-01-01T09:30:00'', ''u1'', ''env1'', ''obj1''] example_users = Inr [] \<and>
   get_event_list fromisoformat_basic
      ([[''2023-01-01T10:30:00'', ''2023-01-01T10:45:00'', ''u2'', ''env2'']] @
       [''2021-06-01T09:00:00'', ''2023-01-01T09:30:00'', ''u1'', ''env1'', ''obj1''] #
       [[''2023-01-02T08:00:00'', ''2023-01-02T09:00:00'', ''u9'']]) example_users
     = get_event_list fromisoformat_basic
      ([[''2023-01-01T10:30:00'', ''2023-01-01T10:45:00'', ''u2'', ''env2'']] @
       [[''2023-01-02T08:00:00'', ''2023-01-02T09:00:00'', ''u9'']]) example_users"
proof -
  have h1: "parsed_times fromisoformat_basic
      [''2021-06-01T09:00:00'', ''2023-01-01T09:30:00'', ''u1'', ''env1'', ''obj1'']
     = Some ((2021, 6, 1, 9, 0, 0, 0), (2023, 1, 1, 9, 30, 0, 0))"
    by code_simp
  have h2: "year (2021, 6, 1, 9, 0, 0, 0) < 2022" by (simp add: year_def)
  have h2': "year (2021, 6, 1, 9, 0, 0, 0) < 2022 \<or> year (2023, 1, 1, 9, 30, 0, 0) < 2022"
    using h2 by (rule disjI1)
  show ?thesis
    by (intro conjI h1 h2 conjunct1 [OF old_records_dropped [OF h1 h2']]
          conjunct2 [OF old_records_dropped [OF h1 h2']])
qed

text \<open>
  Claim C6. When the events processed so far leave no entry for a name in
  \<open>current_users\<close>, an end event for that name makes
  \<open>write_session_count_csv_file\<close> stop with a KeyError: the event is neither skipped
  nor counted as zero, and the file holds the rows written before it only.
\<close>

theorem underflow_fatal:
  assumes "sweep_loop pre initial_state = (s, None)"
    and "map_of (current_users s) n = None"
  shows "write_session_count_csv_file (pre @ (t, - 1, n) # post) = (rows_written s, Inl KeyError)"
  unfolding write_session_count_csv_file_def sweep_loop_append assms(1)
  using sweep_event_underflow [OF assms(2)] by simp

theorem underflow_fatal_witness:
  "sweep_loop [((2023, 1, 1, 10, 0, 0, 0), 1, ''Alice'')] initial_state =
     (\<lparr>session_count = 1, max_session_count = 1, current_users = [(''Alice'', 1)],
       rows_written = [((2023, 1, 1, 10, 0, 0, 0), 1, ''Alice=1'')]\<rparr>, None) \<and>
   write_session_count_csv_file
     ([((2023, 1, 1, 10, 0, 0, 0), 1, ''Alice'')] @
      ((2023, 1, 1, 10, 30, 0, 0), - 1, ''Bob'') # [((2023, 1, 1, 11, 0, 0, 0), - 1, ''Alice'')])
     = ([((2023, 1, 1, 10, 0, 0, 0), 1, ''Alice=1'')], Inl KeyError)"
proof -
  let ?s = "\<lparr>session_count = 1, max_session_count = 1, current_users = [(''Alice'', 1)],
       rows_written = [((2023, 1, 1, 10, 0, 0, 0), 1, ''Alice=1'')]\<rparr>"
  have h1: "sweep_loop [((2023, 1, 1, 10, 0, 0, 0), 1, ''Alice'')] initial_state = (?s, None)"
    by code_simp
  have h2: "map_of (current_users ?s) ''Bob'' = None" by simp
  from underflow_fatal [OF h1 h2, of "(2023, 1, 1, 10, 30, 0, 0)" "[((2023, 1, 1, 11, 0, 0, 0), - 1, ''Alice'')]"]
  have "write_session_count_csv_file
     ([((2023, 1, 1, 10, 0, 0, 0), 1, ''Alice'')] @
      ((2023, 1, 1, 10, 30, 0, 0), - 1, ''Bob'') # [((2023, 1, 1, 11, 0, 0, 0), - 1, ''Alice'')])
     = ([((2023, 1, 1, 10, 0, 0, 0), 1, ''Alice=1'')], Inl KeyError)"
    by simp
  with h1 show ?thesis by (rule conjI)
qed

text \<open>
  Claim C7. On the empty event list, which \<open>get_event_list\<close> returns when no row is
  valid, \<open>write_session_count_csv_file\<close> writes no row and then raises an IndexError
  at \<^verbatim>\<open>event_list[0][0]\<close> in the summary line.
\<close>

theorem empty_stream_faults:
  "get_event_list fromisoformat_basic
     [[''2021-06-01T09:00:00'', ''2021-06-01T10:00:00'', ''u1'', ''env1'', ''obj1'']] Map.empty = Inr [] \<and>
   write_session_count_csv_file [] = ([], Inl IndexError)"
  by code_simp

text \<open>
  Claim C8, amended. When every row has at least its first three fields, so that only
  the environment id or the object id is missing, \<open>get_event_list\<close> gives the result
  it gives for the rows cut to three fields, and that result is not a KeyError.
\<close>

theorem short_rows_three_fields:
  assumes "\<forall>row\<in>set rows. 3 \<le> length row"
  shows "get_event_list p rows ud = get_event_list p (map (take 3) rows) ud \<and>
         get_event_list p rows ud \<noteq> Inl KeyError"
  using collect_events_take3 [OF assms, of p ud]
  unfolding get_event_list_def by (auto split: sum.splits)

theorem short_rows_three_fields_witness:
  "map length example_rows = [5, 4, 5, 3] \<and>
   get_event_list fromisoformat_basic example_rows example_users =
     get_event_list fromisoformat_basic (map (take 3) example_rows) example_users \<and>
   get_event_list fromisoformat_basic example_rows example_users \<noteq> Inl KeyError"
proof -
  have l: "map length example_rows = [5, 4, 5, 3]" by (simp add: example_rows_def)
  have h: "\<forall>row\<in>set example_rows. 3 \<le> length row" by (simp add: example_rows_def)
  show ?thesis by (rule conjI [OF l short_rows_three_fields [OF h]])
qed

text \<open>
  The claim C8 as first stated covers every row shorter than the five fields. A row
  of two timestamps of 2023 and no user id is such a row, and \<open>get_event_list\<close> stops
  on it with a KeyError.
\<close>

theorem short_row_counterexample:
  "get_event_list fromisoformat_basic [[''2023-01-01T10:00:00'', ''2023-01-01T11:00:00'']] Map.empty
     = Inl KeyError"
  by code_simp



text \<open>
  Claim C10. For an event list whose deltas are all 1 or - 1, after any number \<open>k\<close> of
  events processed without a KeyError, \<open>session_count\<close> equals the sum of the counts
  stored in \<open>current_users\<close>. After the last event of a list in which every name has as
  many start events as end events, \<open>session_count\<close> is 0 and \<open>current_users\<close> is empty.
\<close>

theorem total_is_sum_of_counts:
  assumes "\<forall>e\<in>set es. fst (snd e) = 1 \<or> fst (snd e) = - 1"
    and "sweep_loop (take k es) initial_state = (s, None)"
  shows "session_count s = sum_list (map snd (current_users s)) \<and>
         (length es \<le> k \<and> (\<forall>n. starts_fired n es = ends_fired n es) \<longrightarrow>
            session_count s = 0 \<and> current_users s = [])"
proof -
  have pm: "\<forall>e\<in>set (take k es). fst (snd e) = 1 \<or> fst (snd e) = - 1"
    using assms(1) by (meson in_set_takeD)
  have a: "session_count s = sum_list (map snd (current_users s))"
    using sweep_loop_total [OF assms(2) pm] .
  have b: "session_count s = 0 \<and> current_users s = []"
    if k: "length es \<le> k" and paired: "\<forall>n. starts_fired n es = ends_fired n es"
  proof -
    from k assms(2) have l: "sweep_loop es initial_state = (s, None)" by simp
    from sweep_loop_counts [OF l] paired have "\<And>n. map_of (current_users s) n = None" by simp
    then have "current_users s = []" by (rule unpaired_none_empty)
    with a show ?thesis by simp
  qed
  from a b show ?thesis by blast
qed

theorem total_is_sum_of_counts_witness:
  "map (\<lambda>e. fst (snd e)) example_events = [1, 1, - 1, - 1, 1, - 1] \<and>
   sweep_loop (take 6 example_events) initial_state =
     (\<lparr>session_count = 0, max_session_count = 2, current_users = [], rows_written = example_output\<rparr>, None) \<and>
   length example_events \<le> 6 \<and>
   (\<forall>n. starts_fired n example_events = ends_fired n example_events) \<and>
   session_count \<lparr>session_count = 0, max_session_count = 2, current_users = [],
                  rows_written = example_output\<rparr> =
     sum_list (map snd (current_users \<lparr>session_count = 0, max_session_count = 2, current_users = [],
                  rows_written = example_output\<rparr>)) \<and>
   session_count \<lparr>session_count = 0, max_session_count = 2, current_users = [],
                  rows_written = example_output\<rparr> = 0 \<and>
   current_users \<lparr>session_count = 0, max_session_count = 2, current_users = [],
                  rows_written = example_output\<rparr> = []"
proof -
  let ?s = "\<lparr>session_count = 0, max_session_count = 2, current_users = [], rows_written = example_output\<rparr>"
  have h1: "\<forall>e\<in>set example_events. fst (snd e) = 1 \<or> fst (snd e) = - 1"
    by (simp add: example_events_def)
  have h2: "sweep_loop (take 6 example_events) initial_state = (?s, None)"
    by code_simp
  have h3: "length example_events \<le> 6" by (simp add: example_events_def)
  have h4: "\<forall>n. starts_fired n example_events = ends_fired n example_events"
    by (simp add: example_events_def starts_fired_def ends_fired_def)
  have h0: "map (\<lambda>e. fst (snd e)) example_events = [1, 1, - 1, - 1, 1, - 1]"
    by (simp add: example_events_def)
  note t = total_is_sum_of_counts [OF h1 h2]
  note z = mp [OF conjunct2 [OF t] conjI [OF h3 h4]]
  show ?thesis
    by (intro conjI h0 h2 h3 h4 conjunct1 [OF t] conjunct1 [OF z] conjunct2 [OF z])
qed

end
